theory Spec2Isabelle
  imports Main "HOL-Library.Char_ord" "HOL-Library.AList"
begin

section \<open>Text primitives of the Python runtime\<close>

text \<open>
  Python strings are modelled as \<^typ>\<open>string\<close>; a \<^typ>\<open>char\<close> stands for a code point
  below 256.  The character classes below are the restrictions of Python's Unicode classes to
  that range.
\<close>

definition NL :: char where
  "NL = CHR 0x0A"

text \<open>\<^verbatim>\<open>str.isspace\<close>, which is also the class \<^verbatim>\<open>\s\<close> of \<^verbatim>\<open>re\<close>.\<close>

definition is_space :: "char \<Rightarrow> bool" where
  "is_space c \<longleftrightarrow> c \<in> set [CHR 0x09, CHR 0x0A, CHR 0x0B, CHR 0x0C, CHR 0x0D,
     CHR 0x1C, CHR 0x1D, CHR 0x1E, CHR 0x1F, CHR 0x20, CHR 0x85, CHR 0xA0]"

definition is_digit :: "char \<Rightarrow> bool" where
  "is_digit c \<longleftrightarrow> CHR ''0'' \<le> c \<and> c \<le> CHR ''9''"

definition is_upper :: "char \<Rightarrow> bool" where
  "is_upper c \<longleftrightarrow> CHR ''A'' \<le> c \<and> c \<le> CHR ''Z''"

definition is_lower :: "char \<Rightarrow> bool" where
  "is_lower c \<longleftrightarrow> CHR ''a'' \<le> c \<and> c \<le> CHR ''z''"

text \<open>The class \<^verbatim>\<open>\w\<close> of \<^verbatim>\<open>re\<close> on text patterns: alphanumeric code points and the underscore.\<close>

definition is_word :: "char \<Rightarrow> bool" where
  "is_word c \<longleftrightarrow> is_digit c \<or> is_upper c \<or> is_lower c \<or> c = CHR ''_''
     \<or> c \<in> set [CHR 0xAA, CHR 0xB2, CHR 0xB3, CHR 0xB5, CHR 0xB9, CHR 0xBA, CHR 0xBC, CHR 0xBD, CHR 0xBE]
     \<or> (CHR 0xC0 \<le> c \<and> c \<noteq> CHR 0xD7 \<and> c \<noteq> CHR 0xF7)"

text \<open>The other case of an ASCII letter: bit 5 flipped.\<close>

definition swapcase :: "char \<Rightarrow> char" where
  "swapcase c = (case c of Char b0 b1 b2 b3 b4 b5 b6 b7 \<Rightarrow> Char b0 b1 b2 b3 b4 (\<not> b5) b6 b7)"

text \<open>Equality of characters under the flag \<^verbatim>\<open>(?i)\<close>.\<close>

definition ci :: "char \<Rightarrow> char \<Rightarrow> bool" where
  "ci c x \<longleftrightarrow> x = c \<or> ((is_upper c \<or> is_lower c) \<and> x = swapcase c)"

text \<open>\<^verbatim>\<open>str.strip()\<close>.\<close>

definition strip :: "string \<Rightarrow> string" where
  "strip s = rev (dropWhile is_space (rev (dropWhile is_space s)))"

text \<open>\<^verbatim>\<open>str.split(sep)\<close> for a separator of one character: every occurrence splits.\<close>

fun split_on :: "char \<Rightarrow> string \<Rightarrow> string list" where
  "split_on sep [] = [[]]"
| "split_on sep (c # s) =
     (if c = sep then [] # split_on sep s
      else (case split_on sep s of [] \<Rightarrow> [[c]] | w # ws \<Rightarrow> (c # w) # ws))"

text \<open>
  \<^verbatim>\<open>str.splitlines()\<close>: a line ends at \<^verbatim>\<open>\n\<close>, \<^verbatim>\<open>\r\<close>, \<^verbatim>\<open>\r\n\<close>, \<^verbatim>\<open>\v\<close>, \<^verbatim>\<open>\f\<close>,
  \<^verbatim>\<open>\x1c\<close>, \<^verbatim>\<open>\x1d\<close>, \<^verbatim>\<open>\x1e\<close> or \<^verbatim>\<open>\x85\<close>; no empty last line is produced after a
  final line end.  The accumulator holds the current line reversed.
\<close>

definition is_linebreak :: "char \<Rightarrow> bool" where
  "is_linebreak c \<longleftrightarrow> c \<in> set [CHR 0x0A, CHR 0x0B, CHR 0x0C, CHR 0x0D,
     CHR 0x1C, CHR 0x1D, CHR 0x1E, CHR 0x85]"

fun splitlines_acc :: "string \<Rightarrow> string \<Rightarrow> string list" where
  "splitlines_acc acc [] = (if acc = [] then [] else [rev acc])"
| "splitlines_acc acc [c] =
     (if is_linebreak c then [rev acc] else [rev (c # acc)])"
| "splitlines_acc acc (c # d # s) =
     (if c = CHR 0x0D \<and> d = CHR 0x0A then rev acc # splitlines_acc [] s
      else if is_linebreak c then rev acc # splitlines_acc [] (d # s)
      else splitlines_acc (c # acc) (d # s))"

definition splitlines :: "string \<Rightarrow> string list" where
  "splitlines s = splitlines_acc [] s"

text \<open>\<^verbatim>\<open>sep.join(parts)\<close>.\<close>

fun join :: "string \<Rightarrow> string list \<Rightarrow> string" where
  "join sep [] = []"
| "join sep [x] = x"
| "join sep (x # y # xs) = x @ sep @ join sep (y # xs)"

text \<open>\<^verbatim>\<open>d in s\<close> on strings: \<open>d\<close> occurs in \<open>s\<close> as a contiguous substring.\<close>

fun contains :: "string \<Rightarrow> string \<Rightarrow> bool" where
  "contains [] d = (d = [])"
| "contains (c # s) d = (take (length d) (c # s) = d \<or> contains s d)"


section \<open>Regular expressions as \<^verbatim>\<open>re\<close> matches them\<close>

text \<open>
  A pattern is a sequence of items, matched by backtracking as \<^verbatim>\<open>re\<close> does: alternatives
  in order, repetition greedy.  Only the constructs that occur in the patterns of
  \<^verbatim>\<open>sync.py\<close> are present.  \<open>Chr p\<close> is one character of the class \<open>p\<close>, \<open>Star p\<close> is
  \<^verbatim>\<open>[p]*\<close>, \<open>Bol\<close> and \<open>Eol\<close> are \<^verbatim>\<open>^\<close> and \<^verbatim>\<open>$\<close> under the flag \<^verbatim>\<open>(?m)\<close>, \<open>Wordb\<close> is
  \<^verbatim>\<open>\b\<close>, and \<open>Beg n\<close> \<open>\<dots>\<close> \<open>End n\<close> delimit the named group \<^verbatim>\<open>(?P<n>...)\<close>.
\<close>

datatype item =
    Chr "char \<Rightarrow> bool"
  | Star "char \<Rightarrow> bool"
  | Alt "item list" "item list"
  | Bol
  | Eol
  | Wordb
  | Beg string
  | End string

type_synonym spans = "(string \<times> nat \<times> nat) list"

fun weight :: "item \<Rightarrow> nat" where
  "weight (Alt a b) = Suc (sum_list (map weight a) + sum_list (map weight b))"
| "weight (Chr p) = 1"
| "weight (Star p) = 1"
| "weight Bol = 1"
| "weight Eol = 1"
| "weight Wordb = 1"
| "weight (Beg n) = 1"
| "weight (End n) = 1"

definition close_span :: "string \<Rightarrow> nat \<Rightarrow> spans \<Rightarrow> spans" where
  "close_span n pos caps = map (\<lambda>(m, b, e). if m = n then (m, b, pos) else (m, b, e)) caps"

definition at_word :: "char option \<Rightarrow> bool" where
  "at_word c = (case c of None \<Rightarrow> False | Some x \<Rightarrow> is_word x)"

definition next_char :: "string \<Rightarrow> char option" where
  "next_char s = (case s of [] \<Rightarrow> None | c # _ \<Rightarrow> Some c)"

text \<open>
  \<open>rmatch pat prev s pos caps\<close> matches \<open>pat\<close> at the head of \<open>s\<close>; \<open>prev\<close> is the character
  before it (if any), \<open>pos\<close> the number of characters consumed since the match began.
  The result is the length of the match and the spans of its groups.
\<close>

function (sequential) rmatch ::
  "item list \<Rightarrow> char option \<Rightarrow> string \<Rightarrow> nat \<Rightarrow> spans \<Rightarrow> (nat \<times> spans) option" where
  "rmatch [] prev s pos caps = Some (pos, caps)"
| "rmatch (Chr p # r) prev [] pos caps = None"
| "rmatch (Chr p # r) prev (c # s) pos caps =
     (if p c then rmatch r (Some c) s (Suc pos) caps else None)"
| "rmatch (Star p # r) prev [] pos caps = rmatch r prev [] pos caps"
| "rmatch (Star p # r) prev (c # s) pos caps =
     (if p c
      then (case rmatch (Star p # r) (Some c) s (Suc pos) caps of
              Some m \<Rightarrow> Some m
            | None \<Rightarrow> rmatch r prev (c # s) pos caps)
      else rmatch r prev (c # s) pos caps)"
| "rmatch (Alt a b # r) prev s pos caps =
     (case rmatch (a @ r) prev s pos caps of
        Some m \<Rightarrow> Some m
      | None \<Rightarrow> rmatch (b @ r) prev s pos caps)"
| "rmatch (Bol # r) prev s pos caps =
     (if prev = None \<or> prev = Some NL then rmatch r prev s pos caps else None)"
| "rmatch (Eol # r) prev s pos caps =
     (if s = [] \<or> hd s = NL then rmatch r prev s pos caps else None)"
| "rmatch (Wordb # r) prev s pos caps =
     (if at_word prev \<noteq> at_word (next_char s) then rmatch r prev s pos caps else None)"
| "rmatch (Beg n # r) prev s pos caps = rmatch r prev s pos (caps @ [(n, pos, pos)])"
| "rmatch (End n # r) prev s pos caps = rmatch r prev s pos (close_span n pos caps)"
  by pat_completeness auto
termination
  by (relation "measures [\<lambda>(pat, prev, s, pos, caps). sum_list (map weight pat),
                          \<lambda>(pat, prev, s, pos, caps). length s]") auto

text \<open>A match object: the whole match (\<^verbatim>\<open>m.group()\<close>) and its named groups in order.\<close>

record rematch =
  group0 :: string
  named :: "(string \<times> string) list"

text \<open>\<^verbatim>\<open>m.groups()\<close> and \<^verbatim>\<open>m[name]\<close>; all groups of the patterns here take part in every match.\<close>

definition groups :: "rematch \<Rightarrow> string list" where
  "groups m = map snd (named m)"

definition group :: "rematch \<Rightarrow> string \<Rightarrow> string" where
  "group m n = (case map_of (named m) n of None \<Rightarrow> [] | Some t \<Rightarrow> t)"

definition mk_match :: "string \<Rightarrow> nat \<times> spans \<Rightarrow> rematch" where
  "mk_match s r = \<lparr>group0 = take (fst r) s,
     named = map (\<lambda>(n, b, e). (n, take (e - b) (drop b s))) (snd r)\<rparr>"

text \<open>\<^verbatim>\<open>re.search\<close>: the match at the leftmost position that has one.\<close>

fun search_from :: "item list \<Rightarrow> char option \<Rightarrow> string \<Rightarrow> rematch option" where
  "search_from pat prev [] = map_option (mk_match []) (rmatch pat prev [] 0 [])"
| "search_from pat prev (c # s) =
     (case rmatch pat prev (c # s) 0 [] of
        Some r \<Rightarrow> Some (mk_match (c # s) r)
      | None \<Rightarrow> search_from pat (Some c) s)"

definition search :: "item list \<Rightarrow> string \<Rightarrow> rematch option" where
  "search pat s = search_from pat None s"

text \<open>
  \<^verbatim>\<open>re.finditer\<close>: successive matches, each search resuming where the last match ended.
  No pattern of \<^verbatim>\<open>sync.py\<close> matches the empty string; after an empty match the scan
  moves on by one character.
\<close>

function finditer_from :: "item list \<Rightarrow> char option \<Rightarrow> string \<Rightarrow> rematch list" where
  "finditer_from pat prev [] =
     (case rmatch pat prev [] 0 [] of None \<Rightarrow> [] | Some r \<Rightarrow> [mk_match [] r])"
| "finditer_from pat prev (c # s) =
     (case rmatch pat prev (c # s) 0 [] of
        None \<Rightarrow> finditer_from pat (Some c) s
      | Some r \<Rightarrow>
          mk_match (c # s) r #
          finditer_from pat (Some (last (c # take (fst r - 1) s))) (drop (fst r - 1) s))"
  by pat_completeness auto
termination
  by (relation "measure (\<lambda>(pat, prev, s). length s)") auto

definition finditer :: "item list \<Rightarrow> string \<Rightarrow> rematch list" where
  "finditer pat s = finditer_from pat None s"

subsection \<open>The patterns of \<^verbatim>\<open>sync.py\<close>\<close>

definition lit :: "string \<Rightarrow> item list" where
  "lit s = map (\<lambda>c. Chr (\<lambda>x. x = c)) s"

text \<open>The class of \<^verbatim>\<open>.\<close>: anything but a newline.\<close>

definition dot :: "char \<Rightarrow> bool" where
  "dot c \<longleftrightarrow> c \<noteq> NL"

definition nonspace :: "char \<Rightarrow> bool" where
  "nonspace c \<longleftrightarrow> \<not> is_space c"

text \<open>\<^verbatim>\<open>[A-Z0-9]\<close> and \<^verbatim>\<open>[A-Z0-9._-]\<close> under \<^verbatim>\<open>(?i)\<close>.\<close>

definition alnum_ci :: "char \<Rightarrow> bool" where
  "alnum_ci c \<longleftrightarrow> is_upper c \<or> is_lower c \<or> is_digit c"

definition namechar_ci :: "char \<Rightarrow> bool" where
  "namechar_ci c \<longleftrightarrow> alnum_ci c \<or> c = CHR ''.'' \<or> c = CHR ''_'' \<or> c = CHR ''-''"

text \<open>\<^verbatim>\<open>UV_PAT = r"(?m)^# uv\s(?P<version>.+)$"\<close>\<close>

definition UV_PAT :: "item list" where
  "UV_PAT = [Bol] @ lit ''# uv'' @
     [Chr is_space, Beg ''version'', Chr dot, Star dot, End ''version'', Eol]"

text \<open>\<^verbatim>\<open>SUB_PAT = r"(?m)^# submodules/(?P<name>[^\s]+)\s(?P<rev>[^\s]+)$"\<close>\<close>

definition SUB_PAT :: "item list" where
  "SUB_PAT = [Bol] @ lit ''# submodules/'' @
     [Beg ''name'', Chr nonspace, Star nonspace, End ''name'', Chr is_space,
      Beg ''rev'', Chr nonspace, Star nonspace, End ''rev'', Eol]"

text \<open>\<^verbatim>\<open>DEP_PAT = r"(?mi)^(?P<name>[A-Z0-9]|[A-Z0-9][A-Z0-9._-]*[A-Z0-9])==.+$"\<close>\<close>

definition DEP_PAT :: "item list" where
  "DEP_PAT = [Bol, Beg ''name'',
      Alt [Chr alnum_ci] [Chr alnum_ci, Star namechar_ci, Chr alnum_ci],
      End ''name''] @ lit ''=='' @ [Chr dot, Star dot, Eol]"

text \<open>
  \<^verbatim>\<open>rf"(?mi)^(?P<name>{direct['name']})==(?P<ver>.+$)"\<close>: the name is pasted into the
  pattern as it is, so \<^verbatim>\<open>re\<close> reads it as a regular expression.  A name matched by
  \<open>DEP_PAT\<close> consists of ASCII letters, digits, \<^verbatim>\<open>.\<close>, \<^verbatim>\<open>_\<close> and \<^verbatim>\<open>-\<close>; of these only \<^verbatim>\<open>.\<close> is
  special (any character but a newline), the others stand for themselves, letters in
  either case.
\<close>

definition name_items :: "string \<Rightarrow> item list" where
  "name_items n = map (\<lambda>c. if c = CHR ''.'' then Chr dot else Chr (ci c)) n"

definition direct_pat :: "string \<Rightarrow> item list" where
  "direct_pat n = [Bol, Beg ''name''] @ name_items n @ [End ''name''] @ lit ''=='' @
     [Beg ''ver'', Chr dot, Star dot, Eol, End ''ver'']"

text \<open>\<^verbatim>\<open>r"(?m)^(?:-e|--editable)\s(?P<path>.+)$"\<close>\<close>

definition EDITABLE_PAT :: "item list" where
  "EDITABLE_PAT = [Bol, Alt (lit ''-e'') (lit ''--editable''), Chr is_space,
     Beg ''path'', Chr dot, Star dot, End ''path'', Eol]"

text \<open>\<^verbatim>\<open>r"submodules/.+\b"\<close>\<close>

definition SUBMODULE_REF :: "item list" where
  "SUBMODULE_REF = lit ''submodules/'' @ [Chr dot, Star dot, Wordb]"

section \<open>The world outside the program\<close>

text \<open>
  The program runs three kinds of external commands.  The resolver command line carries
  the instant of the call (\<^verbatim>\<open>--exclude-newer\<close>), so two resolutions for the same target may
  differ; the other two commands have no such argument.  The input files of the resolver
  (\<^verbatim>\<open>requirements/dev.in\<close> and one \<^verbatim>\<open>pyproject.toml\<close> per editable path found in it) are
  represented by the editable paths.  Executables are assumed to exist and command lines
  to be well formed, so that every \<^verbatim>\<open>subprocess.run\<close> completes with some exit code.
\<close>

datatype cmd =
    UvPipCompile (instant: nat) (target_platform: string) (target_python: string)
      (highest: bool) (nodeps_flag: bool) (editables: "string list")
  | GitRevParse string
  | UvVersion

record proc =
  returncode :: int
  stdout :: string
  stderr :: string

text \<open>The values \<^verbatim>\<open>json.loads\<close> can return; of a number only its being zero matters here.\<close>

datatype json =
    JNull
  | JBool bool
  | JNumber int
  | JString string
  | JArray "json list"
  | JObject "(string \<times> json) list"

text \<open>
  The host: the module constants fixed at import time, the behaviour of the external
  commands, and the JSON functions of the standard library.
\<close>

record env =
  SYS_PLATFORM :: string
  SYS_PYTHON_VERSION :: string
  PYTHON_VERSIONS :: "string list"
  exec :: "cmd \<Rightarrow> proc"
  loads :: "string \<Rightarrow> json option"
  dumps :: "(string \<times> string) list \<Rightarrow> string"

text \<open>The mutable world: the clock, the files, and the commands run so far.\<close>

record world =
  now :: nat
  files :: "string \<rightharpoonup> string"
  log :: "cmd list"

datatype error =
    RuntimeError string
  | CalledProcessError int string string
  | IndexError
  | FileNotFoundError string
  | JSONDecodeError
  | AttributeError
  | TypeError

type_synonym 'a outcome = "(error + 'a) \<times> world"

definition PLATFORMS :: "string list" where
  "PLATFORMS = [''linux'', ''macos'', ''windows'']"

definition DEFAULT_PYTHON_VERSIONS :: "string list" where
  "DEFAULT_PYTHON_VERSIONS = [''3.9'', ''3.10'', ''3.11'', ''3.12'']"

definition PYTHON_VERSIONS_FILE :: string where
  "PYTHON_VERSIONS_FILE = ''.python-versions''"

definition DEV :: string where
  "DEV = ''requirements/dev.in''"

definition NODEPS :: string where
  "NODEPS = ''requirements/nodeps.in''"

text \<open>The value of \<^verbatim>\<open>PYTHON_VERSIONS\<close> that the import computes from the files then present.\<close>

definition load_python_versions :: "(string \<rightharpoonup> string) \<Rightarrow> string list" where
  "load_python_versions fs =
     (case fs PYTHON_VERSIONS_FILE of
        Some t \<Rightarrow> splitlines t
      | None \<Rightarrow> DEFAULT_PYTHON_VERSIONS)"

definition run :: "env \<Rightarrow> cmd \<Rightarrow> world \<Rightarrow> proc \<times> world" where
  "run E c w = (exec E c, w\<lparr>now := Suc (now w), log := log w @ [c]\<rparr>)"

definition read_text :: "world \<Rightarrow> string \<Rightarrow> error + string" where
  "read_text w path = (case files w path of None \<Rightarrow> Inl (FileNotFoundError path) | Some t \<Rightarrow> Inr t)"

section \<open>The functions of \<^verbatim>\<open>sync.py\<close>\<close>

definition get_uv_version :: "env \<Rightarrow> world \<Rightarrow> string outcome" where
  "get_uv_version E w =
     (let (result, w1) = run E UvVersion w in
      if returncode result \<noteq> 0 then (Inl (RuntimeError (stderr result)), w1)
      else (case split_on CHR '' '' (strip (stdout result)) of
              _ # v # _ \<Rightarrow> (Inr v, w1)
            | _ \<Rightarrow> (Inl IndexError, w1)))"

definition get_lockfile :: "bool \<Rightarrow> string" where
  "get_lockfile high = ''lock'' @ (if high then ''-high'' else []) @ ''.json''"

definition get_compilation_key :: "string \<Rightarrow> string \<Rightarrow> bool \<Rightarrow> string" where
  "get_compilation_key platform python_version high =
     join ''_'' ([platform, python_version] @ (if high then [''high''] else []))"

text \<open>
  \<open>get_compilation\<close> returns whatever the stored object holds under the key, a string in a
  store written by \<open>lock\<close>.  \<^verbatim>\<open>loads\<close> raises on text that is not JSON, and \<^verbatim>\<open>.get\<close> exists
  only on a dict.
\<close>

definition get_compilation :: "env \<Rightarrow> string \<Rightarrow> string \<Rightarrow> bool \<Rightarrow> world \<Rightarrow> error + json" where
  "get_compilation E platform python_version high w =
     (case files w (get_lockfile high) of
        None \<Rightarrow> Inr (JString [])
      | Some text \<Rightarrow>
          (case loads E text of
             None \<Rightarrow> Inl JSONDecodeError
           | Some (JObject contents) \<Rightarrow>
               (case map_of contents (get_compilation_key platform python_version high) of
                  None \<Rightarrow> Inr (JString [])
                | Some v \<Rightarrow> Inr v)
           | Some _ \<Rightarrow> Inl AttributeError))"

text \<open>
  The dict comprehension of \<open>compile\<close>: one \<^verbatim>\<open>git rev-parse\<close> per reference found, run with
  \<^verbatim>\<open>check=True\<close>; a repeated reference keeps its first place in the dict.
\<close>

fun rev_parse_all ::
  "env \<Rightarrow> string list \<Rightarrow> (string \<times> string) list \<Rightarrow> world \<Rightarrow> ((string \<times> string) list) outcome" where
  "rev_parse_all E [] acc w = (Inr acc, w)"
| "rev_parse_all E (sub # subs) acc w =
     (let (result, w1) = run E (GitRevParse sub) w in
      if returncode result \<noteq> 0
      then (Inl (CalledProcessError (returncode result) (stdout result) (stderr result)), w1)
      else rev_parse_all E subs (AList.update sub (strip (stdout result)) acc) w1)"

definition pin_line :: "string \<times> string \<Rightarrow> string" where
  "pin_line p = ''# '' @ fst p @ '' '' @ snd p"

definition compile :: "env \<Rightarrow> string \<Rightarrow> string \<Rightarrow> bool \<Rightarrow> bool \<Rightarrow> world \<Rightarrow> string outcome" where
  "compile E platform python_version high no_deps w =
     (case read_text w DEV of
        Inl e \<Rightarrow> (Inl e, w)
      | Inr dev \<Rightarrow>
          (let (result, w1) =
             run E (UvPipCompile (now w) platform python_version high no_deps
                      (map (\<lambda>m. group m ''path'') (finditer EDITABLE_PAT dev))) w
           in
           if returncode result \<noteq> 0 then (Inl (RuntimeError (stderr result)), w1)
           else
            (case read_text w1 DEV of
               Inl e \<Rightarrow> (Inl e, w1)
             | Inr dev' \<Rightarrow>
                 (case rev_parse_all E (map group0 (finditer SUBMODULE_REF dev')) [] w1 of
                    (Inl e, w2) \<Rightarrow> (Inl e, w2)
                  | (Inr submodules, w2) \<Rightarrow>
                      (case get_uv_version E w2 of
                         (Inl e, w3) \<Rightarrow> (Inl e, w3)
                       | (Inr v, w3) \<Rightarrow>
                           (case read_text w3 NODEPS of
                              Inl e \<Rightarrow> (Inl e, w3)
                            | Inr nodeps \<Rightarrow>
                                (Inr (join [NL]
                                        ([''# uv '' @ v]
                                         @ map pin_line submodules
                                         @ map strip (splitlines (stdout result))
                                         @ map strip (splitlines nodeps))
                                      @ [NL]), w3)))))))"

text \<open>
  The two nested loops of \<open>lock\<close>, over the pairs in the order the loops visit them.
\<close>

fun lock_loop ::
  "env \<Rightarrow> bool \<Rightarrow> (string \<times> string) list \<Rightarrow> string \<Rightarrow> (string \<times> string) list \<Rightarrow> world
     \<Rightarrow> (string \<times> (string \<times> string) list) outcome" where
  "lock_loop E high [] sys_compilation lock_contents w = (Inr (sys_compilation, lock_contents), w)"
| "lock_loop E high ((platform, python_version) # pairs) sys_compilation lock_contents w =
     (case compile E platform python_version high False w of
        (Inl e, w1) \<Rightarrow> (Inl e, w1)
      | (Inr compilation, w1) \<Rightarrow>
          lock_loop E high pairs
            (if sys_compilation = [] \<and> platform = SYS_PLATFORM E
                \<and> python_version = SYS_PYTHON_VERSION E
             then compilation else sys_compilation)
            (AList.update (get_compilation_key platform python_version high) compilation
               lock_contents)
            w1)"

definition lock :: "env \<Rightarrow> bool \<Rightarrow> string \<Rightarrow> world \<Rightarrow> string outcome" where
  "lock E high sys_compilation w =
     (case lock_loop E high (List.product PLATFORMS (PYTHON_VERSIONS E)) sys_compilation [] w of
        (Inl e, w1) \<Rightarrow> (Inl e, w1)
      | (Inr (sys_compilation', lock_contents), w1) \<Rightarrow>
          (Inr sys_compilation',
           w1\<lparr>files := (files w1)(get_lockfile high \<mapsto> dumps E lock_contents @ [NL])\<rparr>))"

text \<open>Truth value of a JSON value in Python.\<close>

fun truthy :: "json \<Rightarrow> bool" where
  "truthy JNull = False"
| "truthy (JBool b) = b"
| "truthy (JNumber n) = (n \<noteq> 0)"
| "truthy (JString s) = (s \<noteq> [])"
| "truthy (JArray xs) = (xs \<noteq> [])"
| "truthy (JObject kv) = (kv \<noteq> [])"

text \<open>The loop of \<open>check_compilation\<close> that collects \<open>old_directs\<close>; \<open>None\<close> is its early return.\<close>

fun collect_old_directs :: "string \<Rightarrow> rematch list \<Rightarrow> string list \<Rightarrow> string list option" where
  "collect_old_directs old [] old_directs = Some old_directs"
| "collect_old_directs old (direct # ds) old_directs =
     (case search (direct_pat (group direct ''name'')) old of
        Some m \<Rightarrow> collect_old_directs old ds (old_directs @ [group0 m])
      | None \<Rightarrow> None)"

text \<open>
  \<open>check_compilation\<close> is a chain of guards, each of which ends in a call of \<open>lock\<close> or in
  returning the old compilation.  \<open>check_guards\<close> is that chain; where the source has
  \<^verbatim>\<open>return lock(high)\<close> or \<^verbatim>\<open>return lock(high, sys_compilation)\<close> it yields \<open>Relock\<close> with the
  reason the source gives in its comment and the argument passed to \<open>lock\<close>, and
  \<open>check_compilation\<close> then makes the call.  The \<^verbatim>\<open>zip\<close> is called with \<^verbatim>\<open>strict=False\<close> and
  cannot raise \<^verbatim>\<open>ValueError\<close>, so the reason \<open>SubmoduleMissing\<close> is never given.
\<close>

datatype reason =
    OldCompilationMissing
  | UnknownUvVersion
  | OlderUvVersion
  | SubmoduleMissing
  | SubmoduleMismatch
  | DirectDependencyMissing
  | DirectDependencyVersionMismatch

datatype verdict = Compatible string | Relock reason string

definition check_guards :: "env \<Rightarrow> bool \<Rightarrow> world \<Rightarrow> verdict outcome" where
  "check_guards E high w =
     (case get_compilation E (SYS_PLATFORM E) (SYS_PYTHON_VERSION E) high w of
        Inl e \<Rightarrow> (Inl e, w)
      | Inr old_value \<Rightarrow>
          if \<not> truthy old_value then (Inr (Relock OldCompilationMissing []), w)
          else
           (case old_value of
              JString old \<Rightarrow>
                (case search UV_PAT old of
                   None \<Rightarrow> (Inr (Relock UnknownUvVersion []), w)
                 | Some old_uv \<Rightarrow>
                     (case get_uv_version E w of
                        (Inl e, w1) \<Rightarrow> (Inl e, w1)
                      | (Inr v, w1) \<Rightarrow>
                          if group old_uv ''version'' \<noteq> v
                          then (Inr (Relock OlderUvVersion []), w1)
                          else
                           (case compile E (SYS_PLATFORM E) (SYS_PYTHON_VERSION E) high True w1 of
                              (Inl e, w2) \<Rightarrow> (Inl e, w2)
                            | (Inr directs, w2) \<Rightarrow>
                                if list_ex (\<lambda>(old_sub, new_sub). groups old_sub \<noteq> groups new_sub)
                                     (zip (finditer SUB_PAT old) (finditer SUB_PAT directs))
                                then (Inr (Relock SubmoduleMismatch []), w2)
                                else
                                 (case collect_old_directs old (finditer DEP_PAT directs) [] of
                                    None \<Rightarrow> (Inr (Relock DirectDependencyMissing []), w2)
                                  | Some old_directs \<Rightarrow>
                                      (case compile E (SYS_PLATFORM E) (SYS_PYTHON_VERSION E)
                                              high False w2 of
                                         (Inl e, w3) \<Rightarrow> (Inl e, w3)
                                       | (Inr sys_compilation, w3) \<Rightarrow>
                                           if list_ex (\<lambda>d. \<not> contains sys_compilation d) old_directs
                                           then (Inr (Relock DirectDependencyVersionMismatch
                                                        sys_compilation), w3)
                                           else (Inr (Compatible old), w3))))))
            | _ \<Rightarrow> (Inl TypeError, w)))"

definition check_compilation :: "env \<Rightarrow> bool \<Rightarrow> world \<Rightarrow> string outcome" where
  "check_compilation E high w =
     (case check_guards E high w of
        (Inl e, w1) \<Rightarrow> (Inl e, w1)
      | (Inr (Compatible old), w1) \<Rightarrow> (Inr old, w1)
      | (Inr (Relock r sys_compilation), w1) \<Rightarrow> lock E high sys_compilation w1)"

section \<open>Notions used to state the properties\<close>

text \<open>The text \<open>lines\<close>, each ended by a newline.\<close>

definition text_of :: "string list \<Rightarrow> string" where
  "text_of ls = concat (map (\<lambda>l. l @ [NL]) ls)"

text \<open>The captured error stream that an exception carries, if it carries one.\<close>

definition error_text :: "error \<Rightarrow> string option" where
  "error_text e =
     (case e of
        RuntimeError t \<Rightarrow> Some t
      | CalledProcessError rc out err \<Rightarrow> Some err
      | _ \<Rightarrow> None)"

definition failure :: "error + 'a \<Rightarrow> error option" where
  "failure res = (case res of Inl e \<Rightarrow> Some e | Inr _ \<Rightarrow> None)"

text \<open>
  \<open>tracks E w eo w'\<close>: going from \<open>w\<close> to \<open>w'\<close> the program wrote no file, and every command
  it ran that exited non-zero ended the run with an exception carrying that command's
  error stream.
\<close>

definition tracks :: "env \<Rightarrow> world \<Rightarrow> error option \<Rightarrow> world \<Rightarrow> bool" where
  "tracks E w eo w' \<longleftrightarrow>
     (\<exists>new. log w' = log w @ new \<and> files w' = files w \<and>
        (\<forall>c \<in> set new. returncode (exec E c) \<noteq> 0 \<longrightarrow>
           (\<exists>e. eo = Some e \<and> error_text e = Some (stderr (exec E c)))))"

text \<open>The keys of the whole cross-product of supported platforms and Python versions.\<close>

definition all_keys :: "env \<Rightarrow> bool \<Rightarrow> string set" where
  "all_keys E high =
     (\<lambda>(p, v). get_compilation_key p v high) ` (set PLATFORMS \<times> set (PYTHON_VERSIONS E))"

text \<open>\<open>c\<close> is a resolver invocation with transitive dependencies for the given target.\<close>

definition resolved_for :: "string \<Rightarrow> string \<Rightarrow> bool \<Rightarrow> cmd \<Rightarrow> bool" where
  "resolved_for p v high c =
     (case c of
        UvPipCompile t p' v' h nd eds \<Rightarrow> p' = p \<and> v' = v \<and> h = high \<and> \<not> nd
      | _ \<Rightarrow> False)"

text \<open>The resolver invocations among the commands \<open>cs\<close>.\<close>

definition resolver_runs :: "cmd list \<Rightarrow> cmd list" where
  "resolver_runs cs =
     filter (\<lambda>c. case c of UvPipCompile t p v h nd eds \<Rightarrow> True | _ \<Rightarrow> False) cs"


text \<open>The text ends with a newline, and with one only.\<close>

definition one_trailing_newline :: "string \<Rightarrow> bool" where
  "one_trailing_newline s =
     (case rev s of
        [] \<Rightarrow> False
      | c # r \<Rightarrow> c = NL \<and> (case r of [] \<Rightarrow> True | d # _ \<Rightarrow> d \<noteq> NL))"

text \<open>
  In the words of the specification: \<open>line\<close> has the package name \<open>name\<close>, compared without
  regard to case, followed by \<^verbatim>\<open>==\<close> and a version; and the fragment has such a line.
\<close>

definition names_package :: "string \<Rightarrow> string \<Rightarrow> bool" where
  "names_package name line \<longleftrightarrow>
     length name + 2 < length line
     \<and> list_all2 ci name (take (length name) line)
     \<and> take 2 (drop (length name) line) = ''==''"

definition has_line_named :: "string \<Rightarrow> string \<Rightarrow> bool" where
  "has_line_named name fragment = list_ex (names_package name) (split_on NL fragment)"

section \<open>Example hosts and worlds\<close>

text \<open>
  Concrete inputs on which the properties below are exercised.  The example host is a
  Linux machine running Python 3.11, with 3.11 the only supported version; \<open>toy_dumps\<close>
  stands in for \<^verbatim>\<open>json.dumps\<close> there.
\<close>

definition ok :: "string \<Rightarrow> proc" where
  "ok out = \<lparr>returncode = 0, stdout = out, stderr = []\<rparr>"

definition failed :: "string \<Rightarrow> proc" where
  "failed err = \<lparr>returncode = 1, stdout = [], stderr = err\<rparr>"

definition toy_dumps :: "(string \<times> string) list \<Rightarrow> string" where
  "toy_dumps kv = concat (map (\<lambda>(k, v). k @ '': '' @ v) kv)"

definition host :: "(cmd \<Rightarrow> proc) \<Rightarrow> (string \<Rightarrow> json option) \<Rightarrow> env" where
  "host ex ld = \<lparr>SYS_PLATFORM = ''linux'', SYS_PYTHON_VERSION = ''3.11'',
     PYTHON_VERSIONS = [''3.11''], exec = ex, loads = ld, dumps = toy_dumps\<rparr>"

text \<open>A world with the given store file (if any), \<^verbatim>\<open>dev.in\<close> and \<^verbatim>\<open>nodeps.in\<close>.\<close>

definition disk :: "string option \<Rightarrow> string \<Rightarrow> string \<Rightarrow> world" where
  "disk lockjson dev nodeps =
     \<lparr>now = 0,
      files = (\<lambda>path. if path = get_lockfile False then lockjson
                      else if path = DEV then Some dev
                      else if path = NODEPS then Some nodeps
                      else None),
      log = []\<rparr>"

text \<open>The resolver reports \<open>out\<close> for every target; \<^verbatim>\<open>uv --version\<close> prints \<^verbatim>\<open>uv 1.2.0\<close>.\<close>

definition exec_const :: "string \<Rightarrow> cmd \<Rightarrow> proc" where
  "exec_const out c =
     (case c of
        UvVersion \<Rightarrow> ok ''uv 1.2.0''
      | GitRevParse s \<Rightarrow> ok ''abc123''
      | UvPipCompile t p v h nd eds \<Rightarrow> ok out)"

text \<open>As before, but the resolution for macOS fails.\<close>

definition exec_macos_fails :: "cmd \<Rightarrow> proc" where
  "exec_macos_fails c =
     (case c of
        UvPipCompile t p v h nd eds \<Rightarrow>
          if p = ''macos'' then failed ''no solution found'' else ok (text_of [''foo==1.0''])
      | _ \<Rightarrow> exec_const [] c)"

text \<open>A store file that is not JSON.\<close>

definition corrupt_host :: env where
  "corrupt_host = host (exec_const (text_of [''foo==1.0''])) (\<lambda>t. None)"

definition corrupt_world :: world where
  "corrupt_world = disk (Some ''{'') [] []"


text \<open>A host whose platform is not a supported one.\<close>

definition freebsd_host :: env where
  "freebsd_host = (host (exec_const (text_of [''foo==1.0''])) Map.empty)\<lparr>SYS_PLATFORM := ''freebsd''\<rparr>"

text \<open>
  A store file holding the fragment \<open>old\<close> under the key of the example host, and the
  reading of that file.
\<close>

definition store_text :: "string \<Rightarrow> string" where
  "store_text old = toy_dumps [(''linux_3.11'', old)] @ [NL]"

definition store_loads :: "string \<Rightarrow> string \<Rightarrow> json option" where
  "store_loads old t =
     (if t = store_text old then Some (JObject [(''linux_3.11'', JString old)]) else None)"

text \<open>
  A project with one submodule, \<^verbatim>\<open>submodules/bar\<close>, pinned at \<^verbatim>\<open>abc123\<close>; resolver version
  1.2.0; \<^verbatim>\<open>foo==1.0\<close> is resolved at every instant.  \<open>pinned_host old\<close> reads a store that
  holds \<open>old\<close>.
\<close>

definition pinned_dev :: string where
  "pinned_dev = text_of [''-e submodules/bar'']"

definition pinned_host :: "string \<Rightarrow> env" where
  "pinned_host old = host (exec_const (text_of [''foo==1.0''])) (store_loads old)"

definition pinned_world :: "string \<Rightarrow> world" where
  "pinned_world old = disk (Some (store_text old)) pinned_dev []"

definition fresh_old :: string where
  "fresh_old = text_of [''# uv 1.2.0'', ''# submodules/bar abc123'', ''foo==1.0'']"




definition stale_uv_old :: string where
  "stale_uv_old = text_of [''# uv 1.1.0'', ''# submodules/bar abc123'', ''foo==1.0'']"

definition no_header_old :: string where
  "no_header_old = text_of [''# submodules/bar abc123'', ''foo==1.0'']"



text \<open>A host whose \<^verbatim>\<open>uv --version\<close> prints two spaces after the program name.\<close>

definition exec_two_spaces :: "cmd \<Rightarrow> proc" where
  "exec_two_spaces c =
     (case c of
        UvVersion \<Rightarrow> ok ''uv  1.2.0''
      | _ \<Rightarrow> exec_const (text_of [''foo==1.0'']) c)"

text \<open>A \<^verbatim>\<open>nodeps.in\<close> whose last line is blank.\<close>

definition blank_line_nodeps :: string where
  "blank_line_nodeps = text_of [''bar==2.0'', []]"

text \<open>
  A project that has gained the direct dependency \<^verbatim>\<open>a.b\<close> since the store was written; it
  depended on \<^verbatim>\<open>axb\<close> before and still does.
\<close>

definition dotted_old :: string where
  "dotted_old = text_of [''# uv 1.2.0'', ''axb==1'']"

definition dotted_host :: env where
  "dotted_host = host (exec_const (text_of [''a.b==1'', ''axb==1''])) (store_loads dotted_old)"

definition dotted_world :: world where
  "dotted_world = disk (Some (store_text dotted_old)) [] []"

section \<open>Effects of the functions\<close>

lemma failure_simps [simp]: "failure (Inl e) = Some e" "failure (Inr x) = None"
  by (simp_all add: failure_def)

lemma tracks_refl: "tracks E w eo w"
  by (simp add: tracks_def)

lemma tracks_trans:
  assumes "tracks E w None w1" and "tracks E w1 eo w2"
  shows "tracks E w eo w2"
proof -
  from assms(1) obtain n1 where n1: "log w1 = log w @ n1" "files w1 = files w"
    "\<forall>c \<in> set n1. returncode (exec E c) = 0"
    unfolding tracks_def by auto
  from assms(2) obtain n2 where n2: "log w2 = log w1 @ n2" "files w2 = files w1"
    "\<forall>c \<in> set n2. returncode (exec E c) \<noteq> 0 \<longrightarrow>
           (\<exists>e. eo = Some e \<and> error_text e = Some (stderr (exec E c)))"
    unfolding tracks_def by auto
  have "log w2 = log w @ (n1 @ n2)" using n1 n2 by simp
  moreover have "files w2 = files w" using n1 n2 by simp
  moreover have "\<forall>c \<in> set (n1 @ n2). returncode (exec E c) \<noteq> 0 \<longrightarrow>
           (\<exists>e. eo = Some e \<and> error_text e = Some (stderr (exec E c)))"
    using n1(3) n2(3) by auto
  ultimately show ?thesis unfolding tracks_def by blast
qed

lemma tracks_run_ok:
  "run E c w = (r, w1) \<Longrightarrow> returncode r = 0 \<Longrightarrow> tracks E w eo w1"
  unfolding tracks_def run_def by (rule exI [of _ "[c]"]) auto

lemma tracks_run_fail:
  "run E c w = (r, w1) \<Longrightarrow> error_text e = Some (stderr r) \<Longrightarrow> tracks E w (Some e) w1"
  unfolding tracks_def run_def by (rule exI [of _ "[c]"]) auto

lemma get_uv_version_tracks:
  assumes "get_uv_version E w = (res, w')"
  shows "tracks E w (failure res) w'"
proof -
  obtain r w1 where r: "run E UvVersion w = (r, w1)" by force
  show ?thesis
  proof (cases "returncode r = 0")
    case True
    with assms r have "w' = w1"
      by (auto simp: get_uv_version_def split: list.splits)
    with tracks_run_ok [OF r True] show ?thesis by simp
  next
    case False
    with assms r have "w' = w1" "res = Inl (RuntimeError (stderr r))"
      by (auto simp: get_uv_version_def)
    with tracks_run_fail [OF r, of "RuntimeError (stderr r)"] show ?thesis
      by (simp add: error_text_def)
  qed
qed

lemma rev_parse_all_tracks:
  "rev_parse_all E subs acc w = (res, w') \<Longrightarrow> tracks E w (failure res) w'"
proof (induction subs arbitrary: acc w)
  case Nil
  then show ?case by (simp add: tracks_refl)
next
  case (Cons sub subs)
  obtain r w1 where r: "run E (GitRevParse sub) w = (r, w1)" by force
  show ?case
  proof (cases "returncode r = 0")
    case True
    with Cons.prems r
    have "rev_parse_all E subs (AList.update sub (strip (stdout r)) acc) w1 = (res, w')"
      by simp
    from Cons.IH [OF this] tracks_run_ok [OF r True] show ?thesis
      by (rule tracks_trans [rotated])
  next
    case False
    with Cons.prems r
    have "w' = w1" "res = Inl (CalledProcessError (returncode r) (stdout r) (stderr r))"
      by auto
    with tracks_run_fail [OF r, of "CalledProcessError (returncode r) (stdout r) (stderr r)"]
    show ?thesis by (simp add: error_text_def)
  qed
qed

lemma tracks_None_any: "tracks E w None w' \<Longrightarrow> tracks E w eo w'"
  unfolding tracks_def by auto

lemma tracks_files: "tracks E w eo w' \<Longrightarrow> files w' = files w"
  unfolding tracks_def by auto

lemma run_files: "run E c w = (r, w1) \<Longrightarrow> files w1 = files w"
  by (auto simp: run_def)

text \<open>The successful runs of \<open>compile\<close>.\<close>

lemma compile_Inr:
  assumes "compile E p pv high nd w = (Inr frag, w')"
  obtains dev nodeps r w1 submodules w2 v where
    "files w DEV = Some dev" and "files w NODEPS = Some nodeps"
    and "run E (UvPipCompile (now w) p pv high nd
           (map (\<lambda>m. group m ''path'') (finditer EDITABLE_PAT dev))) w = (r, w1)"
    and "returncode r = 0"
    and "rev_parse_all E (map group0 (finditer SUBMODULE_REF dev)) [] w1 = (Inr submodules, w2)"
    and "get_uv_version E w2 = (Inr v, w')"
    and "frag = join [NL] ([''# uv '' @ v] @ map pin_line submodules
           @ map strip (splitlines (stdout r)) @ map strip (splitlines nodeps)) @ [NL]"
proof -
  from assms obtain dev where dev: "files w DEV = Some dev"
    by (auto simp: compile_def read_text_def split: option.splits)
  obtain r w1 where r: "run E (UvPipCompile (now w) p pv high nd
           (map (\<lambda>m. group m ''path'') (finditer EDITABLE_PAT dev))) w = (r, w1)"
    by force
  have f1: "files w1 = files w" using r by (rule run_files)
  from assms dev r have rc: "returncode r = 0"
    by (auto simp: compile_def read_text_def split: if_splits)
  obtain rs w2 where rs: "rev_parse_all E (map group0 (finditer SUBMODULE_REF dev)) [] w1 = (rs, w2)"
    by force
  have f2: "files w2 = files w1" using rev_parse_all_tracks [OF rs] by (rule tracks_files)
  from assms dev r rc rs f1 obtain submodules where sm: "rs = Inr submodules"
    by (cases rs) (auto simp: compile_def read_text_def)
  obtain rv w3 where rv: "get_uv_version E w2 = (rv, w3)" by force
  have f3: "files w3 = files w2" using get_uv_version_tracks [OF rv] by (rule tracks_files)
  from assms dev r rc rs f1 sm rv obtain v where v: "rv = Inr v"
    by (cases rv) (auto simp: compile_def read_text_def)
  from assms dev r rc rs f1 sm rv v f2 f3 obtain nodeps where nd: "files w NODEPS = Some nodeps"
    by (auto simp: compile_def read_text_def split: option.splits)
  from assms dev r rc rs f1 sm rv v f2 f3 nd
  have "w' = w3" and "frag = join [NL] ([''# uv '' @ v] @ map pin_line submodules
           @ map strip (splitlines (stdout r)) @ map strip (splitlines nodeps)) @ [NL]"
    by (auto simp: compile_def read_text_def)
  with that dev nd r rc rs sm rv v show ?thesis by blast
qed

lemma compile_tracks:
  assumes "compile E p pv high nd w = (res, w')"
  shows "tracks E w (failure res) w'"
proof (cases "files w DEV")
  case None
  with assms have "w' = w" by (auto simp: compile_def read_text_def)
  then show ?thesis by (simp add: tracks_refl)
next
  case (Some dev)
  obtain r w1 where r: "run E (UvPipCompile (now w) p pv high nd
           (map (\<lambda>m. group m ''path'') (finditer EDITABLE_PAT dev))) w = (r, w1)"
    by force
  have f1: "files w1 = files w" using r by (rule run_files)
  show ?thesis
  proof (cases "returncode r = 0")
    case False
    with assms Some r have "w' = w1" "res = Inl (RuntimeError (stderr r))"
      by (auto simp: compile_def read_text_def)
    with tracks_run_fail [OF r, of "RuntimeError (stderr r)"] show ?thesis
      by (simp add: error_text_def)
  next
    case True
    note t1 = tracks_run_ok [OF r True, of None]
    obtain rs w2 where rs: "rev_parse_all E (map group0 (finditer SUBMODULE_REF dev)) [] w1 = (rs, w2)"
      by force
    note t2 = rev_parse_all_tracks [OF rs]
    show ?thesis
    proof (cases rs)
      case (Inl e)
      with assms Some r True rs f1 have "w' = w2" "res = Inl e"
        by (auto simp: compile_def read_text_def)
      with tracks_trans [OF t1 t2] Inl show ?thesis by simp
    next
      case (Inr submodules)
      with t2 have t2': "tracks E w1 None w2" by simp
      note t12 = tracks_trans [OF t1 t2']
      obtain rv w3 where rv: "get_uv_version E w2 = (rv, w3)" by force
      note t3 = get_uv_version_tracks [OF rv]
      show ?thesis
      proof (cases rv)
        case (Inl e)
        with assms Some r True rs f1 Inr rv have "w' = w3" "res = Inl e"
          by (auto simp: compile_def read_text_def)
        with tracks_trans [OF t12 t3] Inl show ?thesis by simp
      next
        case Inr2: (Inr v)
        with t3 have "tracks E w2 None w3" by simp
        from tracks_trans [OF t12 this] have t123: "tracks E w None w3" .
        from assms Some r True rs f1 Inr rv Inr2 have "w' = w3"
          by (auto simp: compile_def read_text_def split: option.splits)
        with t123 show ?thesis by (simp add: tracks_None_any)
      qed
    qed
  qed
qed

lemma lock_loop_tracks:
  "lock_loop E high pairs sc lc w = (res, w') \<Longrightarrow> tracks E w (failure res) w'"
proof (induction pairs arbitrary: sc lc w)
  case Nil
  then show ?case by (simp add: tracks_refl)
next
  case (Cons pr pairs)
  obtain p pv where pr: "pr = (p, pv)" by (cases pr)
  obtain rc w1 where rc: "compile E p pv high False w = (rc, w1)" by force
  note t1 = compile_tracks [OF rc]
  show ?case
  proof (cases rc)
    case (Inl e)
    with Cons.prems pr rc have "w' = w1" "res = Inl e" by auto
    with t1 Inl show ?thesis by simp
  next
    case (Inr c)
    with Cons.prems pr rc obtain sc1 lc1 where "lock_loop E high pairs sc1 lc1 w1 = (res, w')"
      by auto
    from Cons.IH [OF this] t1 Inr show ?thesis
      by (auto intro: tracks_trans)
  qed
qed


lemma compile_log:
  assumes "compile E p pv high nd w = (Inr frag, w')"
  shows "\<exists>eds rest. log w' = log w @ UvPipCompile (now w) p pv high nd eds # rest"
proof -
  from assms obtain dev r w1 submodules w2 v where
    r: "run E (UvPipCompile (now w) p pv high nd
           (map (\<lambda>m. group m ''path'') (finditer EDITABLE_PAT dev))) w = (r, w1)"
    and rs: "rev_parse_all E (map group0 (finditer SUBMODULE_REF dev)) [] w1 = (Inr submodules, w2)"
    and rv: "get_uv_version E w2 = (Inr v, w')"
    by (rule compile_Inr)
  from rev_parse_all_tracks [OF rs] get_uv_version_tracks [OF rv]
  have "tracks E w1 None w'" by (auto intro: tracks_trans)
  then obtain new where "log w' = log w1 @ new" unfolding tracks_def by auto
  moreover from r have "log w1 = log w @ [UvPipCompile (now w) p pv high nd
           (map (\<lambda>m. group m ''path'') (finditer EDITABLE_PAT dev))]"
    by (auto simp: run_def)
  ultimately show ?thesis by simp
qed

lemma lock_loop_keys:
  "lock_loop E high pairs sc lc w = (Inr (sc', lc'), w') \<Longrightarrow>
   fst ` set lc' = fst ` set lc \<union> (\<lambda>(p, v). get_compilation_key p v high) ` set pairs"
proof (induction pairs arbitrary: sc lc w)
  case Nil
  then show ?case by simp
next
  case (Cons pr pairs)
  obtain p pv where pr: "pr = (p, pv)" by (cases pr)
  from Cons.prems pr obtain c w1 where
    "lock_loop E high pairs
       (if sc = [] \<and> p = SYS_PLATFORM E \<and> pv = SYS_PYTHON_VERSION E then c else sc)
       (AList.update (get_compilation_key p pv high) c lc) w1 = (Inr (sc', lc'), w')"
    by (auto split: prod.splits sum.splits)
  from Cons.IH [OF this] pr show ?case
    by (auto simp: dom_update)
qed

lemma lock_loop_log:
  "lock_loop E high pairs sc lc w = (Inr (sc', lc'), w') \<Longrightarrow>
   \<exists>new. log w' = log w @ new \<and>
     (\<forall>(p, v) \<in> set pairs. \<exists>c \<in> set new. resolved_for p v high c)"
proof (induction pairs arbitrary: sc lc w)
  case Nil
  then show ?case by simp
next
  case (Cons pr pairs)
  obtain p pv where pr: "pr = (p, pv)" by (cases pr)
  from Cons.prems pr obtain c w1 where c: "compile E p pv high False w = (Inr c, w1)" and
    rest: "lock_loop E high pairs
       (if sc = [] \<and> p = SYS_PLATFORM E \<and> pv = SYS_PYTHON_VERSION E then c else sc)
       (AList.update (get_compilation_key p pv high) c lc) w1 = (Inr (sc', lc'), w')"
    by (auto split: prod.splits sum.splits)
  from compile_log [OF c] obtain eds rest1 where
    l1: "log w1 = log w @ UvPipCompile (now w) p pv high False eds # rest1" by blast
  from Cons.IH [OF rest] obtain new where
    l2: "log w' = log w1 @ new" "\<forall>(p, v) \<in> set pairs. \<exists>c \<in> set new. resolved_for p v high c"
    by blast
  let ?new = "UvPipCompile (now w) p pv high False eds # rest1 @ new"
  have "log w' = log w @ ?new" using l1 l2 by simp
  moreover have "\<forall>(p, v) \<in> set (pr # pairs). \<exists>c \<in> set ?new. resolved_for p v high c"
    using l2(2) pr by (auto simp: resolved_for_def)
  ultimately show ?case by blast
qed

lemma lock_Inl_files:
  assumes "lock E high sc w = (Inl e, w')"
  shows "files w' = files w"
proof -
  obtain res w1 where l: "lock_loop E high (List.product PLATFORMS (PYTHON_VERSIONS E)) sc [] w = (res, w1)"
    by force
  with assms have "w' = w1" by (auto simp: lock_def split: sum.splits prod.splits)
  with lock_loop_tracks [OF l] show ?thesis by (simp add: tracks_files)
qed

lemma lock_Inr:
  assumes "lock E high sc w = (Inr r, w')"
  obtains lc w1 where
    "lock_loop E high (List.product PLATFORMS (PYTHON_VERSIONS E)) sc [] w = (Inr (r, lc), w1)"
    and "w' = w1\<lparr>files := (files w1)(get_lockfile high \<mapsto> dumps E lc @ [NL])\<rparr>"
    and "files w1 = files w"
proof -
  obtain res w1 where l: "lock_loop E high (List.product PLATFORMS (PYTHON_VERSIONS E)) sc [] w = (res, w1)"
    by force
  with assms obtain lc where "res = Inr (r, lc)"
    "w' = w1\<lparr>files := (files w1)(get_lockfile high \<mapsto> dumps E lc @ [NL])\<rparr>"
    by (auto simp: lock_def split: sum.splits prod.splits)
  moreover from lock_loop_tracks [OF l] have "files w1 = files w" by (rule tracks_files)
  ultimately show ?thesis using that l by blast
qed

section \<open>The fragment that \<open>compile\<close> returns\<close>

lemma join_text_of: "join [NL] (x # xs) @ [NL] = text_of (x # xs)"
  by (induction xs arbitrary: x) (simp_all add: text_of_def)

lemma get_uv_version_stable:
  "get_uv_version E w = (Inr v, w') \<Longrightarrow> get_uv_version E u = (Inr v', u') \<Longrightarrow> v' = v"
  by (auto simp: get_uv_version_def run_def split: if_splits list.splits)

lemma compile_header:
  assumes "compile E p pv high nd w = (Inr frag, w')"
    and "get_uv_version E u = (Inr v, u')"
  shows "\<exists>ls. frag = text_of ((''# uv '' @ v) # ls)"
proof -
  from assms(1) obtain r :: proc and nodeps submodules w2 v' where
    v': "get_uv_version E w2 = (Inr v', w')"
    and frag: "frag = join [NL] ([''# uv '' @ v'] @ map pin_line submodules
           @ map strip (splitlines (stdout r)) @ map strip (splitlines nodeps)) @ [NL]"
    by (auto elim: compile_Inr)
  from get_uv_version_stable [OF assms(2) v'] have "v' = v" .
  with frag show ?thesis by (auto simp: join_text_of)
qed

section \<open>What the loop of \<open>lock\<close> returns and stores\<close>

lemma lock_loop_step:
  assumes "lock_loop E high ((p, pv) # pairs) sc lc w = (Inr (sc', lc'), w')"
  obtains c w1 where "compile E p pv high False w = (Inr c, w1)"
    and "lock_loop E high pairs
       (if sc = [] \<and> p = SYS_PLATFORM E \<and> pv = SYS_PYTHON_VERSION E then c else sc)
       (AList.update (get_compilation_key p pv high) c lc) w1 = (Inr (sc', lc'), w')"
  using assms by (auto split: prod.splits sum.splits)


lemma lock_loop_absent:
  "lock_loop E high pairs [] lc w = (Inr (sc', lc'), w') \<Longrightarrow>
   (SYS_PLATFORM E, SYS_PYTHON_VERSION E) \<notin> set pairs \<Longrightarrow> sc' = []"
proof (induction pairs arbitrary: lc w)
  case Nil
  then show ?case by simp
next
  case (Cons pr pairs)
  obtain p pv where pr: "pr = (p, pv)" by (cases pr)
  from Cons.prems(1) [unfolded pr] show ?case
  proof (rule lock_loop_step)
    fix c w1
    assume "lock_loop E high pairs
       (if [] = [] \<and> p = SYS_PLATFORM E \<and> pv = SYS_PYTHON_VERSION E then c else [])
       (AList.update (get_compilation_key p pv high) c lc) w1 = (Inr (sc', lc'), w')"
    with Cons.prems(2) pr have "lock_loop E high pairs []
       (AList.update (get_compilation_key p pv high) c lc) w1 = (Inr (sc', lc'), w')"
      by auto
    from Cons.IH [OF this] Cons.prems(2) show ?thesis by simp
  qed
qed



lemma set_update_cases:
  "(k', f) \<in> set (AList.update k v al) \<Longrightarrow> f = v \<or> (k', f) \<in> set al"
  by (induction al) (auto split: if_splits)

lemma lock_loop_headers:
  "lock_loop E high pairs sc lc w = (Inr (sc', lc'), w') \<Longrightarrow>
   get_uv_version E u = (Inr v, u') \<Longrightarrow>
   \<forall>(k, f) \<in> set lc. \<exists>ls. f = text_of ((''# uv '' @ v) # ls) \<Longrightarrow>
   \<forall>(k, f) \<in> set lc'. \<exists>ls. f = text_of ((''# uv '' @ v) # ls)"
proof (induction pairs arbitrary: sc lc w)
  case Nil
  then show ?case by simp
next
  case (Cons pr pairs)
  obtain p pv where pr: "pr = (p, pv)" by (cases pr)
  from Cons.prems(1) [unfolded pr] show ?case
  proof (rule lock_loop_step)
    fix c w1
    assume c: "compile E p pv high False w = (Inr c, w1)"
      and rest: "lock_loop E high pairs
       (if sc = [] \<and> p = SYS_PLATFORM E \<and> pv = SYS_PYTHON_VERSION E then c else sc)
       (AList.update (get_compilation_key p pv high) c lc) w1 = (Inr (sc', lc'), w')"
    from compile_header [OF c Cons.prems(2)] Cons.prems(3)
    have "\<forall>(k, f) \<in> set (AList.update (get_compilation_key p pv high) c lc).
            \<exists>ls. f = text_of ((''# uv '' @ v) # ls)"
      by (auto dest: set_update_cases)
    from Cons.IH [OF rest Cons.prems(2) this] show ?thesis .
  qed
qed



text \<open>The successful runs of \<open>lock\<close>.\<close>

lemma lock_success:
  assumes "lock E high sc w = (Inr r, w')"
  obtains lc w1 new where
    "lock_loop E high (List.product PLATFORMS (PYTHON_VERSIONS E)) sc [] w = (Inr (r, lc), w1)"
    and "files w' = (files w)(get_lockfile high \<mapsto> dumps E lc @ [NL])"
    and "fst ` set lc = all_keys E high"
    and "log w' = log w @ new"
    and "\<forall>p \<in> set PLATFORMS. \<forall>v \<in> set (PYTHON_VERSIONS E). \<exists>c \<in> set new. resolved_for p v high c"
proof -
  from assms obtain lc w1 where
    ll: "lock_loop E high (List.product PLATFORMS (PYTHON_VERSIONS E)) sc [] w = (Inr (r, lc), w1)"
    and w': "w' = w1\<lparr>files := (files w1)(get_lockfile high \<mapsto> dumps E lc @ [NL])\<rparr>"
    and f: "files w1 = files w"
    by (rule lock_Inr)
  from lock_loop_keys [OF ll] have k: "fst ` set lc = all_keys E high"
    by (simp add: all_keys_def)
  from lock_loop_log [OF ll] obtain new where
    new: "log w1 = log w @ new"
      "\<forall>(p, v) \<in> set (List.product PLATFORMS (PYTHON_VERSIONS E)). \<exists>c \<in> set new. resolved_for p v high c"
    by blast
  from new(2) have "\<forall>p \<in> set PLATFORMS. \<forall>v \<in> set (PYTHON_VERSIONS E). \<exists>c \<in> set new. resolved_for p v high c"
    by auto
  moreover from w' f have "files w' = (files w)(get_lockfile high \<mapsto> dumps E lc @ [NL])" by simp
  moreover from w' new(1) have "log w' = log w @ new" by simp
  ultimately show ?thesis using that ll k by blast
qed

lemma check_compilation_no_store:
  assumes "files w (get_lockfile high) = None"
  shows "check_compilation E high w = lock E high [] w"
  using assms by (simp add: check_compilation_def check_guards_def get_compilation_def)

section \<open>The guards of \<open>check_compilation\<close>\<close>








lemma collect_old_directs_None:
  "collect_old_directs old ds acc = None \<longleftrightarrow>
     (\<exists>d \<in> set ds. search (direct_pat (group d ''name'')) old = None)"
  by (induction ds arbitrary: acc) (auto split: option.splits)


lemma lock_loop_returned_header:
  "lock_loop E high pairs sc lc w = (Inr (sc', lc'), w') \<Longrightarrow>
   get_uv_version E u = (Inr v, u') \<Longrightarrow>
   sc = [] \<or> (\<exists>ls. sc = text_of ((''# uv '' @ v) # ls)) \<Longrightarrow>
   sc' = [] \<or> (\<exists>ls. sc' = text_of ((''# uv '' @ v) # ls))"
proof (induction pairs arbitrary: sc lc w)
  case Nil
  then show ?case by simp
next
  case (Cons pr pairs)
  obtain p pv where pr: "pr = (p, pv)" by (cases pr)
  from Cons.prems(1) [unfolded pr] show ?case
  proof (rule lock_loop_step)
    fix c w1
    assume c: "compile E p pv high False w = (Inr c, w1)"
      and rest: "lock_loop E high pairs
       (if sc = [] \<and> p = SYS_PLATFORM E \<and> pv = SYS_PYTHON_VERSION E then c else sc)
       (AList.update (get_compilation_key p pv high) c lc) w1 = (Inr (sc', lc'), w')"
    from compile_header [OF c Cons.prems(2)] Cons.prems(3)
    have "(if sc = [] \<and> p = SYS_PLATFORM E \<and> pv = SYS_PYTHON_VERSION E then c else sc) = []
       \<or> (\<exists>ls. (if sc = [] \<and> p = SYS_PLATFORM E \<and> pv = SYS_PYTHON_VERSION E then c else sc)
              = text_of ((''# uv '' @ v) # ls))"
      by auto
    from Cons.IH [OF rest Cons.prems(2) this] show ?thesis .
  qed
qed

lemma lock_headers:
  assumes "lock E high [] w = (Inr res, w')" and "get_uv_version E u = (Inr v, u')"
  shows "(res = [] \<or> (\<exists>ls. res = text_of ((''# uv '' @ v) # ls)))
     \<and> (\<exists>lc. files w' (get_lockfile high) = Some (dumps E lc @ [NL])
          \<and> fst ` set lc = all_keys E high
          \<and> (\<forall>(k, f) \<in> set lc. \<exists>ls. f = text_of ((''# uv '' @ v) # ls)))"
proof -
  from assms(1) obtain lc w1 where
    ll: "lock_loop E high (List.product PLATFORMS (PYTHON_VERSIONS E)) [] [] w = (Inr (res, lc), w1)"
    and f: "files w' = (files w)(get_lockfile high \<mapsto> dumps E lc @ [NL])"
      "fst ` set lc = all_keys E high"
    by (rule lock_success)
  from lock_loop_headers [OF ll assms(2)]
  have "\<forall>(k, f) \<in> set lc. \<exists>ls. f = text_of ((''# uv '' @ v) # ls)" by simp
  moreover from lock_loop_returned_header [OF ll assms(2)]
  have "res = [] \<or> (\<exists>ls. res = text_of ((''# uv '' @ v) # ls))" by simp
  ultimately show ?thesis using f by auto
qed

section \<open>Facts about matching\<close>

lemma rmatch_pos_mono: "rmatch pat prev s pos caps = Some (n, c) \<Longrightarrow> pos \<le> n"
  by (induction pat prev s pos caps rule: rmatch.induct)
     (auto split: if_splits option.splits dest: Suc_leD)

lemma rmatch_lit:
  "rmatch (lit l @ r) prev s pos caps = Some x \<Longrightarrow>
   \<exists>s' prev'. s = l @ s' \<and> rmatch r prev' s' (pos + length l) caps = Some x"
proof (induction l arbitrary: prev s pos)
  case Nil
  then show ?case by (auto simp: lit_def)
next
  case (Cons c l)
  from Cons.prems obtain s0 where s: "s = c # s0"
    and m: "rmatch (lit l @ r) (Some c) s0 (Suc pos) caps = Some x"
    by (cases s) (auto simp: lit_def split: if_splits)
  from Cons.IH [OF m] s show ?case by auto
qed

lemma star_dot_to_eol:
  "rmatch [Star dot, End n, Eol] prev (xs @ NL # rest) pos caps \<noteq> None"
proof (induction xs arbitrary: prev pos)
  case Nil
  show ?case by (simp add: dot_def)
next
  case (Cons x xs)
  from Cons.IH [of "Some x" "Suc pos"] obtain m where
    m: "rmatch [Star dot, End n, Eol] (Some x) (xs @ NL # rest) (Suc pos) caps = Some m"
    by auto
  show ?case
  proof (cases "dot x")
    case True
    with m show ?thesis by simp
  next
    case False
    then have "x = NL" by (simp add: dot_def)
    with False show ?thesis by simp
  qed
qed

lemma UV_PAT_matches_header:
  "rmatch UV_PAT None (''# uv '' @ v @ NL # rest) 0 [] \<noteq> None \<longleftrightarrow> v \<noteq> [] \<and> hd v \<noteq> NL"
proof (cases v)
  case Nil
  then show ?thesis
    by (simp add: UV_PAT_def lit_def is_space_def dot_def)
next
  case (Cons c v')
  show ?thesis
  proof (cases "c = NL")
    case True
    with Cons show ?thesis
      by (simp add: UV_PAT_def lit_def is_space_def dot_def)
  next
    case False
    have "dot c" using False by (simp add: dot_def)
    with Cons False show ?thesis
      by (simp add: UV_PAT_def lit_def is_space_def star_dot_to_eol)
  qed
qed

lemma finditer_from_matches:
  "m \<in> set (finditer_from pat prev s) \<Longrightarrow>
   \<exists>prev' s' r. rmatch pat prev' s' 0 [] = Some r \<and> m = mk_match s' r"
proof (induction pat prev s rule: finditer_from.induct)
  case (1 pat prev)
  show ?case
  proof (cases "rmatch pat prev [] 0 []")
    case None
    with 1 show ?thesis by simp
  next
    case (Some r)
    with 1 have "m = mk_match [] r" by simp
    with Some show ?thesis by blast
  qed
next
  case (2 pat prev c s)
  show ?case
  proof (cases "rmatch pat prev (c # s) 0 []")
    case None
    with 2 show ?thesis by simp
  next
    case (Some r)
    with "2.prems" have "m = mk_match (c # s) r
       \<or> m \<in> set (finditer_from pat (Some (last (c # take (fst r - 1) s))) (drop (fst r - 1) s))"
      by simp
    then show ?thesis
    proof
      assume "m = mk_match (c # s) r"
      with Some show ?thesis by blast
    next
      assume "m \<in> set (finditer_from pat (Some (last (c # take (fst r - 1) s))) (drop (fst r - 1) s))"
      with "2.IH"(2) [OF Some] show ?thesis by blast
    qed
  qed
qed

lemma lit_match_prefix:
  assumes "rmatch (lit l @ r) prev s 0 [] = Some x"
  shows "\<exists>rest. take (fst x) s = l @ rest"
proof -
  from rmatch_lit [OF assms] obtain s' prev' where s: "s = l @ s'"
    and r': "rmatch r prev' s' (0 + length l) [] = Some (fst x, snd x)"
    by auto
  from rmatch_pos_mono [OF r'] have "length l \<le> fst x" by simp
  with s have "take (fst x) s = l @ take (fst x - length l) s'" by simp
  then show ?thesis ..
qed

lemma submodule_ref_prefix:
  assumes "m \<in> set (finditer SUBMODULE_REF dev)"
  shows "\<exists>name. group0 m = ''submodules/'' @ name"
proof -
  from assms obtain prev s r where r: "rmatch SUBMODULE_REF prev s 0 [] = Some r"
    and m: "m = mk_match s r"
    unfolding finditer_def by (blast dest: finditer_from_matches)
  from r have "\<exists>rest. take (fst r) s = ''submodules/'' @ rest"
    unfolding SUBMODULE_REF_def by (rule lit_match_prefix)
  with m show ?thesis by (simp add: mk_match_def)
qed

lemma rev_parse_all_keys:
  "rev_parse_all E subs acc w = (Inr res, w') \<Longrightarrow> fst ` set res = fst ` set acc \<union> set subs"
proof (induction subs arbitrary: acc w)
  case Nil
  then show ?case by simp
next
  case (Cons sub subs)
  obtain r w1 where r: "run E (GitRevParse sub) w = (r, w1)" by force
  with Cons.prems have
    "rev_parse_all E subs (AList.update sub (strip (stdout r)) acc) w1 = (Inr res, w')"
    by (auto split: if_splits)
  from Cons.IH [OF this] show ?case by (auto simp: dom_update)
qed

section \<open>The shape of a text of lines\<close>

lemma text_of_Cons: "text_of (l # ls) = l @ NL # text_of ls"
  by (simp add: text_of_def)

lemma text_of_snoc: "text_of (ls @ [l]) = text_of ls @ l @ [NL]"
  by (simp add: text_of_def)

lemma text_of_last: "ls \<noteq> [] \<Longrightarrow> last (text_of ls) = NL"
  by (induction ls rule: rev_induct) (simp_all add: text_of_snoc)

lemma one_trailing_newline_text_of:
  assumes "ls \<noteq> []" and "hd ls \<noteq> []"
  shows "one_trailing_newline (text_of ls) \<longleftrightarrow> last ls \<noteq> [] \<and> last (last ls) \<noteq> NL"
proof -
  from assms(1) obtain xs l where ls: "ls = xs @ [l]"
    by (metis rev_exhaust)
  show ?thesis
  proof (cases "l = []")
    case False
    then obtain ys y where l: "l = ys @ [y]" by (metis rev_exhaust)
    with ls show ?thesis
      by (simp add: text_of_snoc one_trailing_newline_def)
  next
    case True
    with ls assms(2) have "xs \<noteq> []" by auto
    then obtain zs z where xs: "xs = zs @ [z]" by (metis rev_exhaust)
    with ls True have "text_of ls = text_of zs @ z @ [NL, NL]"
      by (simp add: text_of_def)
    with ls True show ?thesis
      by (simp add: one_trailing_newline_def)
  qed
qed

section \<open>The header and the pin lines of a fragment\<close>

lemma get_uv_version_fst: "fst (get_uv_version E w) = fst (get_uv_version E u)"
  by (simp add: get_uv_version_def run_def split: list.splits)

lemma compile_pins:
  assumes "rev_parse_all E (map group0 (finditer SUBMODULE_REF dev)) [] w = (Inr submodules, w')"
    and "l \<in> set (map pin_line submodules)"
  shows "\<exists>name rev. l = ''# submodules/'' @ name @ '' '' @ rev"
proof -
  from assms(2) obtain sub rev where sr: "(sub, rev) \<in> set submodules" and l: "l = pin_line (sub, rev)"
    by auto
  from rev_parse_all_keys [OF assms(1)] sr have "sub \<in> group0 ` set (finditer SUBMODULE_REF dev)"
    by force
  then obtain name where "sub = ''submodules/'' @ name"
    by (auto dest: submodule_ref_prefix)
  with l have "l = ''# submodules/'' @ name @ '' '' @ rev"
    by (simp add: pin_line_def)
  then show ?thesis by blast
qed

section \<open>Full relock\<close>

text \<open>
  C7.  Whatever \<open>lock\<close> does, every command it ran that exited non-zero (a resolver
  invocation, a \<^verbatim>\<open>git rev-parse\<close> lookup or the version query) made it raise an error
  carrying that command's captured error stream; when \<open>lock\<close> raises, all files are as they
  were; when it returns, the only change is the store file, written once with exactly the
  keys of the whole platform \<open>\<times>\<close> Python-version cross-product.
\<close>

theorem lock_all_or_nothing:
  assumes "lock E high sc w = (res, w')"
  shows "\<exists>new. log w' = log w @ new
     \<and> (\<forall>c \<in> set new. returncode (exec E c) \<noteq> 0 \<longrightarrow>
           (\<exists>e. res = Inl e \<and> error_text e = Some (stderr (exec E c))))
     \<and> (\<forall>e. res = Inl e \<longrightarrow> files w' = files w)
     \<and> (\<forall>r. res = Inr r \<longrightarrow>
           (\<exists>lc. files w' = (files w)(get_lockfile high \<mapsto> dumps E lc @ [NL])
              \<and> fst ` set lc = all_keys E high))"
proof -
  obtain rl w1 where l: "lock_loop E high (List.product PLATFORMS (PYTHON_VERSIONS E)) sc [] w = (rl, w1)"
    by force
  from lock_loop_tracks [OF l] obtain new where new: "log w1 = log w @ new"
    "\<forall>c \<in> set new. returncode (exec E c) \<noteq> 0 \<longrightarrow>
           (\<exists>e. failure rl = Some e \<and> error_text e = Some (stderr (exec E c)))"
    unfolding tracks_def by blast
  from assms l have lw: "log w' = log w1" and fl: "failure res = failure rl"
    by (auto simp: lock_def split: sum.splits prod.splits)
  have a: "log w' = log w @ new" using lw new by simp
  have b: "\<forall>c \<in> set new. returncode (exec E c) \<noteq> 0 \<longrightarrow>
           (\<exists>e. res = Inl e \<and> error_text e = Some (stderr (exec E c)))"
    using new(2) fl by (cases res) auto
  have c: "\<forall>e. res = Inl e \<longrightarrow> files w' = files w"
    using assms by (auto dest: lock_Inl_files)
  have d: "\<forall>r. res = Inr r \<longrightarrow>
           (\<exists>lc. files w' = (files w)(get_lockfile high \<mapsto> dumps E lc @ [NL])
              \<and> fst ` set lc = all_keys E high)"
  proof (intro allI impI)
    fix r assume "res = Inr r"
    with assms have "lock E high sc w = (Inr r, w')" by simp
    then obtain lc w2 where
      ll: "lock_loop E high (List.product PLATFORMS (PYTHON_VERSIONS E)) sc [] w = (Inr (r, lc), w2)"
      and w': "w' = w2\<lparr>files := (files w2)(get_lockfile high \<mapsto> dumps E lc @ [NL])\<rparr>"
      and f: "files w2 = files w"
      by (rule lock_Inr)
    from lock_loop_keys [OF ll] have "fst ` set lc = all_keys E high"
      by (simp add: all_keys_def)
    with w' f show "\<exists>lc. files w' = (files w)(get_lockfile high \<mapsto> dumps E lc @ [NL])
              \<and> fst ` set lc = all_keys E high"
      by auto
  qed
  from a b c d show ?thesis by blast
qed

text \<open>
  On the example host the resolution for macOS fails after the one for Linux has succeeded:
  \<open>lock\<close> raises with the resolver's message and no file has changed.  Where every
  resolution succeeds, the store file is written.
\<close>

theorem lock_all_or_nothing_witness:
  "fst (lock (host exec_macos_fails Map.empty) False [] (disk None [] []))
     = Inl (RuntimeError ''no solution found'')
   \<and> files (snd (lock (host exec_macos_fails Map.empty) False [] (disk None [] [])))
     = files (disk None [] [])
   \<and> (\<exists>lc. files (snd (lock (host (exec_const []) Map.empty) False [] (disk None [] [])))
        = (files (disk None [] []))(get_lockfile False \<mapsto> toy_dumps lc @ [NL])
        \<and> fst ` set lc = all_keys (host (exec_const []) Map.empty) False)"
proof -
  let ?E = "host exec_macos_fails Map.empty" and ?w = "disk None [] []"
  let ?F = "host (exec_const []) Map.empty"
  have a: "fst (lock ?E False [] ?w) = Inl (RuntimeError ''no solution found'')"
    by code_simp
  have b: "fst (lock ?F False [] ?w) = Inr (text_of [''# uv 1.2.0''])"
    by code_simp
  have "files (snd (lock ?E False [] ?w)) = files ?w"
  proof -
    have "lock ?E False [] ?w = (fst (lock ?E False [] ?w), snd (lock ?E False [] ?w))"
      by simp
    from lock_all_or_nothing [OF this] a show ?thesis by auto
  qed
  moreover have "\<exists>lc. files (snd (lock ?F False [] ?w))
        = (files ?w)(get_lockfile False \<mapsto> toy_dumps lc @ [NL]) \<and> fst ` set lc = all_keys ?F False"
  proof -
    have "lock ?F False [] ?w = (fst (lock ?F False [] ?w), snd (lock ?F False [] ?w))"
      by simp
    from lock_all_or_nothing [OF this] b show ?thesis by (auto simp: host_def)
  qed
  ultimately show ?thesis using a by simp
qed




text \<open>
  C10.  If the current platform is not a supported platform, or the current Python version
  not a supported version, then a call of \<open>lock\<close> without a fragment that returns has
  invoked the resolver for every supported pair and written the store with the keys of the
  whole cross-product, and what it returns is the empty string.  With no store file present
  \<open>check_compilation\<close> returns that empty string.
\<close>

theorem lock_unsupported_returns_empty:
  assumes "SYS_PLATFORM E \<notin> set PLATFORMS \<or> SYS_PYTHON_VERSION E \<notin> set (PYTHON_VERSIONS E)"
    and "lock E high [] w = (Inr r, w')"
  shows "r = []
     \<and> (\<exists>lc. files w' = (files w)(get_lockfile high \<mapsto> dumps E lc @ [NL])
          \<and> fst ` set lc = all_keys E high)
     \<and> (\<exists>new. log w' = log w @ new
          \<and> (\<forall>p \<in> set PLATFORMS. \<forall>v \<in> set (PYTHON_VERSIONS E).
               \<exists>c \<in> set new. resolved_for p v high c))
     \<and> (files w (get_lockfile high) = None \<longrightarrow> check_compilation E high w = (Inr [], w'))"
proof -
  from assms(2) obtain lc w1 new where
    ll: "lock_loop E high (List.product PLATFORMS (PYTHON_VERSIONS E)) [] [] w = (Inr (r, lc), w1)"
    and f: "files w' = (files w)(get_lockfile high \<mapsto> dumps E lc @ [NL])"
      "fst ` set lc = all_keys E high"
    and l: "log w' = log w @ new"
      "\<forall>p \<in> set PLATFORMS. \<forall>v \<in> set (PYTHON_VERSIONS E). \<exists>c \<in> set new. resolved_for p v high c"
    by (rule lock_success)
  from assms(1)
  have "(SYS_PLATFORM E, SYS_PYTHON_VERSION E) \<notin> set (List.product PLATFORMS (PYTHON_VERSIONS E))"
    by auto
  from lock_loop_absent [OF ll this] have r: "r = []" .
  have "check_compilation E high w = (Inr [], w')" if "files w (get_lockfile high) = None"
    using check_compilation_no_store [OF that, of E] assms(2) r by simp
  with r f l show ?thesis by blast
qed

text \<open>
  On a FreeBSD host with no store file, \<open>check_compilation\<close> returns the empty string
  and raises nothing.
\<close>

theorem lock_unsupported_returns_empty_witness:
  "SYS_PLATFORM freebsd_host \<notin> set PLATFORMS
   \<and> files (disk None [] []) (get_lockfile False) = None
   \<and> fst (lock freebsd_host False [] (disk None [] [])) = Inr []
   \<and> check_compilation freebsd_host False (disk None [] [])
       = (Inr [], snd (lock freebsd_host False [] (disk None [] [])))"
proof -
  let ?w = "disk None [] []"
  have a: "SYS_PLATFORM freebsd_host \<notin> set PLATFORMS"
    by (simp add: freebsd_host_def host_def PLATFORMS_def)
  have b: "files ?w (get_lockfile False) = None"
    by (simp add: disk_def)
  have "isl (fst (lock freebsd_host False [] ?w)) = False"
    by code_simp
  then obtain r where c: "lock freebsd_host False [] ?w = (Inr r, snd (lock freebsd_host False [] ?w))"
    by (metis prod.collapse sum.collapse(2))
  from lock_unsupported_returns_empty [OF disjI1 [OF a] c] b
  have "r = []" and "check_compilation freebsd_host False ?w = (Inr [], snd (lock freebsd_host False [] ?w))"
    by simp_all
  moreover from c \<open>r = []\<close> have "fst (lock freebsd_host False [] ?w) = Inr []"
    by (metis fst_conv)
  ultimately show ?thesis using a b by simp
qed

section \<open>Reading the store\<close>

text \<open>
  C9.  If the store file exists but \<^verbatim>\<open>json.loads\<close> rejects its contents, \<open>get_compilation\<close>
  raises instead of returning the empty string, and \<open>check_compilation\<close> raises with it:
  the world is untouched, so nothing was resolved and nothing relocked.
\<close>

theorem corrupt_store_raises:
  assumes "files w (get_lockfile high) = Some text" and "loads E text = None"
  shows "get_compilation E p pv high w = Inl JSONDecodeError
     \<and> check_compilation E high w = (Inl JSONDecodeError, w)"
  using assms by (simp add: get_compilation_def check_compilation_def check_guards_def)

theorem corrupt_store_raises_witness:
  "files corrupt_world (get_lockfile False) = Some ''{''
   \<and> loads corrupt_host ''{'' = None
   \<and> get_compilation corrupt_host ''linux'' ''3.11'' False corrupt_world = Inl JSONDecodeError
   \<and> check_compilation corrupt_host False corrupt_world = (Inl JSONDecodeError, corrupt_world)"
proof -
  have a: "files corrupt_world (get_lockfile False) = Some ''{''"
    by (simp add: corrupt_world_def disk_def)
  have b: "loads corrupt_host ''{'' = None"
    by (simp add: corrupt_host_def host_def)
  from corrupt_store_raises [OF a b, of "''linux''" "''3.11''"] a b show ?thesis by simp
qed

section \<open>The compatibility check\<close>








text \<open>
  C6.  Let the store hold a fragment for the current key, and let the probe report the
  version \<open>v\<close>.  If no header is found in the stored fragment, or the header found carries a
  version other than \<open>v\<close>, the guards end in a relock.  When that relock returns, every
  fragment it has written to the store, one for each key of the cross-product, begins with
  the line \<^verbatim>\<open># uv\<close> \<open>v\<close>, and so does the fragment it returns unless that is empty.
\<close>

theorem stale_resolver_version_relocks:
  assumes "get_compilation E (SYS_PLATFORM E) (SYS_PYTHON_VERSION E) high w = Inr (JString old)"
    and "old \<noteq> []"
    and "get_uv_version E w = (Inr v, w1)"
    and "search UV_PAT old = None
         \<or> (\<exists>old_uv. search UV_PAT old = Some old_uv \<and> group old_uv ''version'' \<noteq> v)"
  shows "(\<exists>r u. (r = UnknownUvVersion \<or> r = OlderUvVersion)
            \<and> check_guards E high w = (Inr (Relock r []), u)
            \<and> check_compilation E high w = lock E high [] u)
     \<and> (\<forall>res w'. check_compilation E high w = (Inr res, w') \<longrightarrow>
            (res = [] \<or> (\<exists>ls. res = text_of ((''# uv '' @ v) # ls)))
            \<and> (\<exists>lc. files w' (get_lockfile high) = Some (dumps E lc @ [NL])
                 \<and> fst ` set lc = all_keys E high
                 \<and> (\<forall>(k, f) \<in> set lc. \<exists>ls. f = text_of ((''# uv '' @ v) # ls))))"
proof -
  have "\<exists>r u. (r = UnknownUvVersion \<or> r = OlderUvVersion)
            \<and> check_guards E high w = (Inr (Relock r []), u)"
    using assms by (auto simp: check_guards_def)
  then obtain r u where r: "r = UnknownUvVersion \<or> r = OlderUvVersion"
    and g: "check_guards E high w = (Inr (Relock r []), u)"
    by blast
  from g have c: "check_compilation E high w = lock E high [] u"
    by (simp add: check_compilation_def)
  have "(res = [] \<or> (\<exists>ls. res = text_of ((''# uv '' @ v) # ls)))
            \<and> (\<exists>lc. files w' (get_lockfile high) = Some (dumps E lc @ [NL])
                 \<and> fst ` set lc = all_keys E high
                 \<and> (\<forall>(k, f) \<in> set lc. \<exists>ls. f = text_of ((''# uv '' @ v) # ls)))"
    if "check_compilation E high w = (Inr res, w')" for res w'
    using that c lock_headers [OF _ assms(3)] by simp
  with r g c show ?thesis by blast
qed

text \<open>
  The scenario of the specification: the store was written by version 1.1.0 and the probe
  reports 1.2.0.  The relock runs and the fragment returned begins with \<^verbatim>\<open># uv 1.2.0\<close>.  A
  stored fragment without a header is relocked as well.
\<close>

theorem stale_resolver_version_relocks_witness:
  "fst (check_guards (pinned_host stale_uv_old) False (pinned_world stale_uv_old))
     = Inr (Relock OlderUvVersion [])
   \<and> fst (check_compilation (pinned_host stale_uv_old) False (pinned_world stale_uv_old))
     = Inr fresh_old
   \<and> (\<exists>ls. fresh_old = text_of ((''# uv '' @ ''1.2.0'') # ls))
   \<and> fst (check_guards (pinned_host no_header_old) False (pinned_world no_header_old))
     = Inr (Relock UnknownUvVersion [])"
proof -
  let ?E = "pinned_host stale_uv_old" and ?w = "pinned_world stale_uv_old"
  let ?p = "SYS_PLATFORM ?E" and ?v = "SYS_PYTHON_VERSION ?E"
  let ?w1 = "snd (get_uv_version ?E ?w)"
  let ?m = "\<lparr>group0 = ''# uv 1.1.0'', named = [(''version'', ''1.1.0'')]\<rparr>"
  have h1: "get_compilation ?E ?p ?v False ?w = Inr (JString stale_uv_old)"
    by code_simp
  have h2: "stale_uv_old \<noteq> []"
    by code_simp
  have "fst (get_uv_version ?E ?w) = Inr ''1.2.0''"
    by code_simp
  then have h3: "get_uv_version ?E ?w = (Inr ''1.2.0'', ?w1)"
    by (metis prod.collapse)
  have "search UV_PAT stale_uv_old = Some ?m" "group ?m ''version'' \<noteq> ''1.2.0''"
    by code_simp+
  then have h4: "search UV_PAT stale_uv_old = None
         \<or> (\<exists>old_uv. search UV_PAT stale_uv_old = Some old_uv \<and> group old_uv ''version'' \<noteq> ''1.2.0'')"
    by blast
  note t = stale_resolver_version_relocks [OF h1 h2 h3 h4]
  have a: "fst (check_guards ?E False ?w) = Inr (Relock OlderUvVersion [])"
    by code_simp
  have b: "fst (check_compilation ?E False ?w) = Inr fresh_old"
    by code_simp
  then have "check_compilation ?E False ?w = (Inr fresh_old, snd (check_compilation ?E False ?w))"
    by (metis prod.collapse)
  with t have "fresh_old = [] \<or> (\<exists>ls. fresh_old = text_of ((''# uv '' @ ''1.2.0'') # ls))"
    by blast
  moreover have "fresh_old \<noteq> []"
    by code_simp
  moreover have "fst (check_guards (pinned_host no_header_old) False (pinned_world no_header_old))
     = Inr (Relock UnknownUvVersion [])"
    by code_simp
  ultimately show ?thesis using a b by blast
qed

text \<open>
  C5: the code and the claim part ways on names that contain a dot.  The name reported by
  the direct resolution is pasted into the search pattern unescaped, so \<^verbatim>\<open>a.b\<close> is searched
  for as a regular expression and the line \<^verbatim>\<open>axb==1\<close> of the stored fragment answers the
  search.  The stored fragment has no line for the package \<^verbatim>\<open>a.b\<close>, and yet the guards end
  in \<open>Compatible\<close>: the fragment is returned and nothing is relocked.
\<close>

theorem dotted_name_escapes_relock:
  "map (\<lambda>d. group d ''name'') (finditer DEP_PAT (text_of [''# uv 1.2.0'', ''a.b==1'', ''axb==1'']))
     = [''a.b'', ''axb'']
   \<and> \<not> has_line_named ''a.b'' dotted_old
   \<and> search (direct_pat ''a.b'') dotted_old
     = Some \<lparr>group0 = ''axb==1'', named = [(''name'', ''axb''), (''ver'', ''1'')]\<rparr>
   \<and> fst (check_guards dotted_host False dotted_world) = Inr (Compatible dotted_old)
   \<and> fst (check_compilation dotted_host False dotted_world) = Inr dotted_old
   \<and> files (snd (check_compilation dotted_host False dotted_world)) (get_lockfile False)
     = Some (store_text dotted_old)
   \<and> length (resolver_runs (log (snd (check_compilation dotted_host False dotted_world)))) = 2"
  by code_simp

section \<open>The format of a fragment\<close>

text \<open>
  C8, as stated, fails in two of its parts.  Where \<^verbatim>\<open>uv --version\<close> prints two spaces after
  the program name, the version token is empty and the first line of the fragment, \<^verbatim>\<open># uv\<close>
  followed by a space, is not matched by the header pattern.  Where \<^verbatim>\<open>nodeps.in\<close> ends in a
  blank line, the fragment ends in two newlines.
\<close>

theorem fragment_format_counterexample:
  "fst (compile (host exec_two_spaces Map.empty) ''linux'' ''3.11'' False False (disk None [] []))
     = Inr (text_of [''# uv '', ''foo==1.0''])
   \<and> rmatch UV_PAT None (text_of [''# uv '', ''foo==1.0'']) 0 [] = None
   \<and> fst (compile (host (exec_const (text_of [''foo==1.0''])) Map.empty) ''linux'' ''3.11'' False False
            (disk None [] blank_line_nodeps))
     = Inr (text_of [''# uv 1.2.0'', ''foo==1.0'', ''bar==2.0'', []])
   \<and> \<not> one_trailing_newline (text_of [''# uv 1.2.0'', ''foo==1.0'', ''bar==2.0'', []])"
  by code_simp

text \<open>
  C8, amended.  Every fragment that \<open>compile\<close> returns is made of lines, each followed by a
  newline: first the line \<^verbatim>\<open># uv\<close> \<open>v\<close>, where \<open>v\<close> is the token that the version probe
  returns; then the pin lines, each of the form \<^verbatim>\<open># submodules/\<close>\<open>name rev\<close>; then the lines of
  the resolver's output, stripped; then the lines of \<^verbatim>\<open>nodeps.in\<close>, stripped.  The header
  pattern matches at the start of the fragment exactly when \<open>v\<close> is not empty and does not
  begin with a newline.  The fragment ends with a newline; it ends with one newline only
  exactly when its last line is not empty and does not itself end in a newline.
\<close>

theorem compile_fragment_format:
  assumes "compile E p pv high nd w = (Inr fragment, w')"
  shows "\<exists>v pins deps extra.
       fragment = text_of ((''# uv '' @ v) # pins @ deps @ extra)
     \<and> fst (get_uv_version E w) = Inr v
     \<and> (\<forall>l \<in> set pins. \<exists>name rev. l = ''# submodules/'' @ name @ '' '' @ rev)
     \<and> (\<exists>eds. deps = map strip (splitlines (stdout (exec E (UvPipCompile (now w) p pv high nd eds)))))
     \<and> (\<exists>nodeps. files w NODEPS = Some nodeps \<and> extra = map strip (splitlines nodeps))
     \<and> (rmatch UV_PAT None fragment 0 [] \<noteq> None \<longleftrightarrow> v \<noteq> [] \<and> hd v \<noteq> NL)
     \<and> last fragment = NL
     \<and> (one_trailing_newline fragment \<longleftrightarrow>
          last ((''# uv '' @ v) # pins @ deps @ extra) \<noteq> []
          \<and> last (last ((''# uv '' @ v) # pins @ deps @ extra)) \<noteq> NL)"
proof -
  from assms obtain dev nodeps r w1 submodules w2 v where
    nodeps: "files w NODEPS = Some nodeps"
    and r: "run E (UvPipCompile (now w) p pv high nd
           (map (\<lambda>m. group m ''path'') (finditer EDITABLE_PAT dev))) w = (r, w1)"
    and rs: "rev_parse_all E (map group0 (finditer SUBMODULE_REF dev)) [] w1 = (Inr submodules, w2)"
    and rv: "get_uv_version E w2 = (Inr v, w')"
    and frag: "fragment = join [NL] ([''# uv '' @ v] @ map pin_line submodules
           @ map strip (splitlines (stdout r)) @ map strip (splitlines nodeps)) @ [NL]"
    by (rule compile_Inr)
  let ?pins = "map pin_line submodules"
  let ?deps = "map strip (splitlines (stdout r))"
  let ?extra = "map strip (splitlines nodeps)"
  let ?ls = "(''# uv '' @ v) # ?pins @ ?deps @ ?extra"
  have a: "fragment = text_of ?ls"
    using frag by (simp add: join_text_of)
  have b: "fst (get_uv_version E w) = Inr v"
    using rv get_uv_version_fst [of E w w2] by simp
  have c: "\<forall>l \<in> set ?pins. \<exists>name rev. l = ''# submodules/'' @ name @ '' '' @ rev"
    using compile_pins [OF rs] by blast
  have d: "\<exists>eds. ?deps = map strip (splitlines (stdout (exec E (UvPipCompile (now w) p pv high nd eds))))"
    using r by (auto simp: run_def)
  have e: "rmatch UV_PAT None fragment 0 [] \<noteq> None \<longleftrightarrow> v \<noteq> [] \<and> hd v \<noteq> NL"
    using UV_PAT_matches_header [of v "text_of (?pins @ ?deps @ ?extra)"]
    by (simp add: a text_of_Cons)
  have f: "last fragment = NL"
    unfolding a by (rule text_of_last) simp
  have g: "one_trailing_newline fragment \<longleftrightarrow> last ?ls \<noteq> [] \<and> last (last ?ls) \<noteq> NL"
    unfolding a by (rule one_trailing_newline_text_of) simp_all
  from a b c d nodeps e f g show ?thesis by blast
qed

text \<open>
  The fragment computed for the example project has all these properties; its header is
  matched and it ends with one newline.
\<close>

theorem compile_fragment_format_witness:
  "fst (compile (pinned_host fresh_old) ''linux'' ''3.11'' False False (pinned_world fresh_old))
     = Inr fresh_old
   \<and> rmatch UV_PAT None fresh_old 0 [] \<noteq> None
   \<and> last fresh_old = NL"
proof -
  let ?E = "pinned_host fresh_old" and ?w = "pinned_world fresh_old"
  have a: "fst (compile ?E ''linux'' ''3.11'' False False ?w) = Inr fresh_old"
    by code_simp
  then have "compile ?E ''linux'' ''3.11'' False False ?w
     = (Inr fresh_old, snd (compile ?E ''linux'' ''3.11'' False False ?w))"
    by (metis prod.collapse)
  from compile_fragment_format [OF this] obtain v where
    v: "fst (get_uv_version ?E ?w) = Inr v"
    and m: "rmatch UV_PAT None fresh_old 0 [] \<noteq> None \<longleftrightarrow> v \<noteq> [] \<and> hd v \<noteq> NL"
    and l: "last fresh_old = NL"
    by blast
  have "fst (get_uv_version ?E ?w) = Inr ''1.2.0''"
    by code_simp
  with v have "v = ''1.2.0''" by simp
  then have "v \<noteq> [] \<and> hd v \<noteq> NL" by (simp add: NL_def)
  with m l a show ?thesis by simp
qed

end
